theory Spec2Isabelle
  imports Main
begin

section \<open>Strings, regular expressions and the Python primitives used by the parser\<close>

text \<open>
  The parser of \<^verbatim>\<open>Account_Summary_MP_to_XLSX.py\<close> works on Python \<^verbatim>\<open>str\<close> values.
  A string is modelled as a list of characters, each character being one code point
  below 256. On that range the class \<^verbatim>\<open>\d\<close> of the \<^verbatim>\<open>re\<close> module is exactly the ten
  ASCII digits, and the white space removed by \<^verbatim>\<open>str.strip()\<close> is the set listed in
  \<open>is_space\<close>.
\<close>

datatype py_error = IndexError | ValueError

definition bind_result :: "py_error + 'a \<Rightarrow> ('a \<Rightarrow> py_error + 'b) \<Rightarrow> py_error + 'b" where
  "bind_result r f = (case r of Inl e \<Rightarrow> Inl e | Inr x \<Rightarrow> f x)"

definition is_digit :: "char \<Rightarrow> bool" where
  "is_digit c = (c \<in> set ''0123456789'')"

definition is_space :: "char \<Rightarrow> bool" where
  "is_space c = (c \<in> set [CHR 0x09, CHR 0x0A, CHR 0x0B, CHR 0x0C, CHR 0x0D,
                            CHR 0x1C, CHR 0x1D, CHR 0x1E, CHR 0x1F, CHR 0x20,
                            CHR 0x85, CHR 0xA0])"

text \<open>\<^verbatim>\<open>s.strip()\<close>: white space removed at both ends.\<close>

definition strip :: "string \<Rightarrow> string" where
  "strip s = rev (dropWhile is_space (rev (dropWhile is_space s)))"

text \<open>\<^verbatim>\<open>s.replace(c, r)\<close> for a one-character \<^verbatim>\<open>c\<close>: every occurrence is replaced.\<close>

definition replace_chr :: "char \<Rightarrow> string \<Rightarrow> string \<Rightarrow> string" where
  "replace_chr c r s = concat (map (\<lambda>x. if x = c then r else [x]) s)"

text \<open>\<^verbatim>\<open>text.split('\n')\<close>: the pieces between the line feeds, from left to right; the
  result always has at least one element. The first argument is the piece being read.\<close>

fun split_nl_from :: "string \<Rightarrow> string \<Rightarrow> string list" where
  "split_nl_from piece [] = [piece]"
| "split_nl_from piece (c # cs) =
     (if c = CHR 0x0A then piece # split_nl_from [] cs
      else split_nl_from (piece @ [c]) cs)"

definition split_nl :: "string \<Rightarrow> string list" where
  "split_nl s = split_nl_from [] s"

text \<open>\<^verbatim>\<open>xs[i]\<close> on a list: a negative index counts from the end, an index out of range
  raises \<^verbatim>\<open>IndexError\<close>.\<close>

definition py_index :: "'a list \<Rightarrow> int \<Rightarrow> py_error + 'a" where
  "py_index xs i =
     (if 0 \<le> i \<and> i < int (length xs) then Inr (xs ! nat i)
      else if i < 0 \<and> - int (length xs) \<le> i then Inr (xs ! nat (int (length xs) + i))
      else Inl IndexError)"

text \<open>\<^verbatim>\<open>s[i:j]\<close> and \<^verbatim>\<open>s[i:]\<close>: slices never raise; a negative bound counts from the end
  and every bound is clipped to the string.\<close>

definition py_bound :: "string \<Rightarrow> int \<Rightarrow> nat" where
  "py_bound s i =
     (let n = int (length s)
      in if i < 0 then nat (max 0 (n + i)) else nat (min n i))"

definition py_slice :: "string \<Rightarrow> int \<Rightarrow> int \<Rightarrow> string" where
  "py_slice s i j = drop (py_bound s i) (take (py_bound s j) s)"

definition py_slice_from :: "string \<Rightarrow> int \<Rightarrow> string" where
  "py_slice_from s i = drop (py_bound s i) s"

definition py_slice_to :: "string \<Rightarrow> int \<Rightarrow> string" where
  "py_slice_to s j = take (py_bound s j) s"

text \<open>\<^verbatim>\<open>s.index(c)\<close>: the first position of \<^verbatim>\<open>c\<close>, \<^verbatim>\<open>ValueError\<close> when there is none.\<close>

fun str_index :: "string \<Rightarrow> char \<Rightarrow> py_error + nat" where
  "str_index [] c = Inl ValueError"
| "str_index (x # xs) c =
     (if x = c then Inr 0 else bind_result (str_index xs c) (\<lambda>i. Inr (Suc i)))"

text \<open>\<^verbatim>\<open>s.rfind(sub)\<close>: the highest position where \<^verbatim>\<open>sub\<close> starts, \<^verbatim>\<open>-1\<close> when there is none.\<close>

definition occurrences :: "string \<Rightarrow> string \<Rightarrow> nat list" where
  "occurrences s sub =
     (if length sub \<le> length s
      then filter (\<lambda>i. take (length sub) (drop i s) = sub) [0 ..< Suc (length s - length sub)]
      else [])"

definition rfind :: "string \<Rightarrow> string \<Rightarrow> int" where
  "rfind s sub = (case rev (occurrences s sub) of [] \<Rightarrow> - 1 | i # _ \<Rightarrow> int i)"

subsection \<open>The compiled patterns\<close>

text \<open>A pattern that is a fixed sequence of character classes, matched at the start of
  the string.\<close>

fun match_prefix :: "(char \<Rightarrow> bool) list \<Rightarrow> string \<Rightarrow> bool" where
  "match_prefix [] s = True"
| "match_prefix (p # ps) [] = False"
| "match_prefix (p # ps) (c # cs) = (p c \<and> match_prefix ps cs)"

text \<open>\<^verbatim>\<open>date_pattern = re.compile(r'^\d{2}-\d{2}-\d{4}')\<close>\<close>

definition date_pattern :: "(char \<Rightarrow> bool) list" where
  "date_pattern =
     [is_digit, is_digit, (\<lambda>c. c = CHR ''-''), is_digit, is_digit, (\<lambda>c. c = CHR ''-''),
      is_digit, is_digit, is_digit, is_digit]"

text \<open>\<^verbatim>\<open>date_pattern.match(line)\<close>: the match object is given by the matched text
  (\<^verbatim>\<open>group(0)\<close>) and the position after it (\<^verbatim>\<open>end()\<close>).\<close>

definition date_pattern_match :: "string \<Rightarrow> (string \<times> nat) option" where
  "date_pattern_match s =
     (if match_prefix date_pattern s
      then Some (take (length date_pattern) s, length date_pattern) else None)"

text \<open>\<^verbatim>\<open>date_pattern.search(line)\<close>: the pattern starts with \<^verbatim>\<open>^\<close> and is compiled without
  \<^verbatim>\<open>re.MULTILINE\<close>, so a search can only succeed at position 0.\<close>

definition date_pattern_search :: "string \<Rightarrow> (string \<times> nat) option" where
  "date_pattern_search s = date_pattern_match s"

text \<open>\<^verbatim>\<open>money_pattern = re.compile(r'\$')\<close>; \<^verbatim>\<open>finditer\<close> gives the matches from left to
  right, each given by its \<^verbatim>\<open>start()\<close>.\<close>

fun money_finditer_from :: "nat \<Rightarrow> string \<Rightarrow> nat list" where
  "money_finditer_from i [] = []"
| "money_finditer_from i (c # cs) =
     (if c = CHR ''$'' then i # money_finditer_from (Suc i) cs
      else money_finditer_from (Suc i) cs)"

definition money_finditer :: "string \<Rightarrow> nat list" where
  "money_finditer s = money_finditer_from 0 s"

text \<open>\<^verbatim>\<open>id_pattern = re.compile(r'\d+')\<close>; \<^verbatim>\<open>findall\<close> gives the maximal digit runs from left
  to right. The first argument is the run being read.\<close>

fun id_findall_from :: "string \<Rightarrow> string \<Rightarrow> string list" where
  "id_findall_from run [] = (if run = [] then [] else [run])"
| "id_findall_from run (c # cs) =
     (if is_digit c then id_findall_from (run @ [c]) cs
      else if run = [] then id_findall_from [] cs
      else run # id_findall_from [] cs)"

definition id_findall :: "string \<Rightarrow> string list" where
  "id_findall s = id_findall_from [] s"

section \<open>The parser\<close>

subsection \<open>Value normalizer\<close>

definition convert_money_to_number :: "string \<Rightarrow> string" where
  "convert_money_to_number money_str =
     strip (replace_chr (CHR '','') ''.''
             (replace_chr (CHR ''.'') ''''
               (replace_chr (CHR ''$'') '''' money_str)))"

definition clean_balance :: "string \<Rightarrow> py_error + string" where
  "clean_balance balance_str =
     (if CHR ''.'' \<in> set balance_str then
        bind_result (str_index balance_str (CHR ''.'')) (\<lambda>decimal_pos.
          if length balance_str > decimal_pos + 3
          then Inr (py_slice_to balance_str (int (decimal_pos + 3)))
          else Inr balance_str)
      else Inr balance_str)"

subsection \<open>Field extractor\<close>

type_synonym fields = "string \<times> string \<times> string \<times> string \<times> string"

definition extract_fields_from_line :: "string \<Rightarrow> py_error + fields option" where
  "extract_fields_from_line line =
     (case date_pattern_search line of
        None \<Rightarrow> Inr None
      | Some (date, date_end) \<Rightarrow>
          let rest_of_line = strip (py_slice_from line (int date_end));
              money_matches = money_finditer rest_of_line
          in if length money_matches < 2 then Inr None
             else
               bind_result (py_index money_matches 0) (\<lambda>first_money.
               bind_result (py_index money_matches 1) (\<lambda>second_money.
                 let before_money = strip (py_slice_to rest_of_line (int first_money));
                     value_str = strip (py_slice rest_of_line (int first_money) (int second_money));
                     balance_str = strip (py_slice_from rest_of_line (int second_money));
                     id_matches = id_findall before_money
                 in if id_matches = [] then Inr None
                    else
                      bind_result (py_index id_matches (- 1)) (\<lambda>operation_id.
                        let description =
                              strip (py_slice_to before_money (rfind before_money operation_id));
                            value = convert_money_to_number value_str
                        in bind_result (clean_balance (convert_money_to_number balance_str))
                             (\<lambda>balance.
                                Inr (Some (date, description, operation_id, value, balance)))))))"

subsection \<open>Line reconstructor\<close>

text \<open>The loop of \<^verbatim>\<open>combine_broken_lines\<close>: the state is the list \<^verbatim>\<open>combined_lines\<close> and the
  accumulator \<^verbatim>\<open>current_line\<close>.\<close>

fun combine_loop :: "string list \<Rightarrow> string list \<Rightarrow> string \<Rightarrow> string list \<times> string" where
  "combine_loop [] combined_lines current_line = (combined_lines, current_line)"
| "combine_loop (line # lines) combined_lines current_line =
     (if date_pattern_match line \<noteq> None then
        (if current_line \<noteq> [] then
           combine_loop lines (combined_lines @ [strip current_line]) line
         else combine_loop lines combined_lines line)
      else combine_loop lines combined_lines (current_line @ '' '' @ line))"

definition flush :: "string list \<times> string \<Rightarrow> string list" where
  "flush st = (case st of (combined_lines, current_line) \<Rightarrow>
     if current_line \<noteq> [] then combined_lines @ [strip current_line] else combined_lines)"

definition combine_broken_lines :: "string \<Rightarrow> string list" where
  "combine_broken_lines text = flush (combine_loop (split_nl text) [] [])"

subsection \<open>The table of records\<close>

text \<open>The loop of \<^verbatim>\<open>pdf_text_to_dataframe\<close>; a list of five strings is always truthy, so
  \<^verbatim>\<open>if fields:\<close> only tests for \<^verbatim>\<open>None\<close>. The table is given by its rows.\<close>

fun collect_rows :: "string list \<Rightarrow> fields list \<Rightarrow> py_error + fields list" where
  "collect_rows [] data = Inr data"
| "collect_rows (line # lines) data =
     bind_result (extract_fields_from_line line) (\<lambda>fields.
       case fields of
         None \<Rightarrow> collect_rows lines data
       | Some f \<Rightarrow> collect_rows lines (data @ [f]))"

definition pdf_text_to_dataframe :: "string \<Rightarrow> py_error + fields list" where
  "pdf_text_to_dataframe text = collect_rows (combine_broken_lines text) []"

subsection \<open>The three spans, as the specification words them\<close>

text \<open>
  Section 4.2 of the specification, step 4, on the remainder of the line after the date:
  \<^verbatim>\<open>before\<close> is the text up to the first currency marker, \<^verbatim>\<open>value_span\<close> runs from the
  first marker up to (not including) the second, \<^verbatim>\<open>balance_span\<close> from the second marker
  to the end of the line. These definitions follow the specification; the theorems below
  compare them with what \<open>extract_fields_from_line\<close> slices out.
\<close>

definition spec_before_span :: "string \<Rightarrow> string" where
  "spec_before_span rest = takeWhile (\<lambda>c. c \<noteq> CHR ''$'') rest"

definition spec_value_span :: "string \<Rightarrow> string" where
  "spec_value_span rest =
     (let from_first = dropWhile (\<lambda>c. c \<noteq> CHR ''$'') rest
      in take 1 from_first @ takeWhile (\<lambda>c. c \<noteq> CHR ''$'') (drop 1 from_first))"

definition spec_balance_span :: "string \<Rightarrow> string" where
  "spec_balance_span rest =
     dropWhile (\<lambda>c. c \<noteq> CHR ''$'') (drop 1 (dropWhile (\<lambda>c. c \<noteq> CHR ''$'') rest))"

section \<open>Properties\<close>

subsection \<open>Python primitives\<close>

lemma digit_not_space: "is_digit c \<Longrightarrow> \<not> is_space c"
  by (auto simp: is_digit_def is_space_def)

lemma dollar_not_space: "\<not> is_space (CHR ''$'')"
  by (simp add: is_space_def)

lemma mem_dropWhile: "\<not> P c \<Longrightarrow> c \<in> set (dropWhile P s) \<longleftrightarrow> c \<in> set s"
  by (induction s) auto

lemma mem_strip: "\<not> is_space c \<Longrightarrow> c \<in> set (strip s) \<longleftrightarrow> c \<in> set s"
  by (simp add: strip_def mem_dropWhile)

lemma str_index_takeWhile:
  "c \<in> set s \<Longrightarrow> str_index s c = Inr (length (takeWhile (\<lambda>x. x \<noteq> c) s))"
  by (induction s) (auto simp: bind_result_def)

lemma py_slice_to_nat: "py_slice_to s (int n) = take n s"
  by (simp add: py_slice_to_def py_bound_def Let_def min_def)

lemma py_slice_from_nat: "py_slice_from s (int n) = drop n s"
  by (simp add: py_slice_from_def py_bound_def Let_def min_def)

lemma py_slice_nat: "py_slice s (int m) (int n) = drop m (take n s)"
  by (simp add: py_slice_def py_bound_def Let_def min_def)

lemma py_slice_to_nat3: "py_slice_to s (int n + 3) = take (n + 3) s"
  using py_slice_to_nat [of s "n + 3"] by simp

lemma clean_balance_eq:
  "clean_balance s =
     Inr (if CHR ''.'' \<in> set s
          then take (length (takeWhile (\<lambda>x. x \<noteq> CHR ''.'') s) + 3) s else s)"
  by (simp add: clean_balance_def str_index_takeWhile bind_result_def py_slice_to_nat3)

lemma takeWhile_take_hit:
  "c \<in> set s \<Longrightarrow> length (takeWhile (\<lambda>x. x \<noteq> c) s) < n \<Longrightarrow>
   takeWhile (\<lambda>x. x \<noteq> c) (take n s) = takeWhile (\<lambda>x. x \<noteq> c) s \<and> c \<in> set (take n s)"
proof (induction s arbitrary: n)
  case Nil
  then show ?case by simp
next
  case (Cons x xs)
  then show ?case by (cases n) auto
qed

text \<open>
  Claim C8. \<^verbatim>\<open>clean_balance\<close> is idempotent: for every string it returns a string (the
  guarded \<^verbatim>\<open>index\<close> never raises), and applied to that string it returns it unchanged.
\<close>

theorem clean_balance_idempotent:
  "\<exists>t. clean_balance s = Inr t \<and> clean_balance t = Inr t"
proof (cases "CHR ''.'' \<in> set s")
  case True
  let ?n = "length (takeWhile (\<lambda>x. x \<noteq> CHR ''.'') s)"
  have "takeWhile (\<lambda>x. x \<noteq> CHR ''.'') (take (?n + 3) s) = takeWhile (\<lambda>x. x \<noteq> CHR ''.'') s
        \<and> CHR ''.'' \<in> set (take (?n + 3) s)"
    using True by (intro takeWhile_take_hit) simp_all
  then show ?thesis
    by (simp add: clean_balance_eq True)
next
  case False
  then show ?thesis by (simp add: clean_balance_eq)
qed

lemma replace_chr_del: "replace_chr c [] s = filter (\<lambda>x. x \<noteq> c) s"
  by (induction s) (auto simp: replace_chr_def)

lemma replace_chr_one: "replace_chr c [d] s = map (\<lambda>x. if x = c then d else x) s"
  by (induction s) (auto simp: replace_chr_def)

text \<open>
  Claim C6. \<^verbatim>\<open>convert_money_to_number\<close> removes every \<^verbatim>\<open>$\<close>, deletes every \<^verbatim>\<open>.\<close> and
  then turns every \<^verbatim>\<open>,\<close> into \<^verbatim>\<open>.\<close> (and trims white space at both ends of the result),
  so no \<^verbatim>\<open>$\<close> and no \<^verbatim>\<open>,\<close> is left; \<^verbatim>\<open>"$1.234,56"\<close> gives \<^verbatim>\<open>"1234.56"\<close> and
  \<^verbatim>\<open>"$50,00"\<close> gives \<^verbatim>\<open>"50.00"\<close>.
\<close>

theorem convert_money_to_number_spec:
  "convert_money_to_number s =
     strip (map (\<lambda>x. if x = CHR '','' then CHR ''.'' else x)
             (filter (\<lambda>x. x \<noteq> CHR ''.'') (filter (\<lambda>x. x \<noteq> CHR ''$'') s)))
   \<and> CHR ''$'' \<notin> set (convert_money_to_number s)
   \<and> CHR '','' \<notin> set (convert_money_to_number s)
   \<and> convert_money_to_number ''$1.234,56'' = ''1234.56''
   \<and> convert_money_to_number ''$50,00'' = ''50.00''"
proof -
  have eq: "convert_money_to_number s =
     strip (map (\<lambda>x. if x = CHR '','' then CHR ''.'' else x)
             (filter (\<lambda>x. x \<noteq> CHR ''.'') (filter (\<lambda>x. x \<noteq> CHR ''$'') s)))"
    by (simp add: convert_money_to_number_def replace_chr_del replace_chr_one)
  have d: "CHR ''$'' \<notin> set (convert_money_to_number s)"
    unfolding eq by (auto simp: mem_strip is_space_def)
  have c: "CHR '','' \<notin> set (convert_money_to_number s)"
    unfolding eq by (auto simp: mem_strip is_space_def)
  have e1: "convert_money_to_number ''$1.234,56'' = ''1234.56''" by code_simp
  have e2: "convert_money_to_number ''$50,00'' = ''50.00''" by code_simp
  show ?thesis using eq d c e1 e2 by blast
qed

subsection \<open>The examples of the specification\<close>

text \<open>
  Claim C2. On the line \<^verbatim>\<open>"01-03-2024 Pago de servicios 987654 $1.000,00$5.432,10"\<close> the
  field extractor returns the record with date \<^verbatim>\<open>"01-03-2024"\<close>, description
  \<^verbatim>\<open>"Pago de servicios"\<close>, operation id \<^verbatim>\<open>"987654"\<close>, value \<^verbatim>\<open>"1000.00"\<close> and balance
  \<^verbatim>\<open>"5432.10"\<close>.
\<close>

theorem extract_fields_end_to_end_example:
  "extract_fields_from_line ''01-03-2024 Pago de servicios 987654 $1.000,00$5.432,10'' =
     Inr (Some (''01-03-2024'', ''Pago de servicios'', ''987654'', ''1000.00'', ''5432.10''))"
  by code_simp

text \<open>
  Claim C4. On the two raw lines \<^verbatim>\<open>"orphan text"\<close> and
  \<^verbatim>\<open>"02-03-2024 Compra 111 $10,00$100,00"\<close> the whole pipeline produces exactly one record,
  the one it produces on the second line alone, so nothing of the first line is in it.
\<close>

theorem pdf_text_to_dataframe_orphan_example:
  "pdf_text_to_dataframe (''orphan text'' @ [CHR 0x0A] @ ''02-03-2024 Compra 111 $10,00$100,00'') =
     Inr [(''02-03-2024'', ''Compra'', ''111'', ''10.00'', ''100.00'')]
   \<and> pdf_text_to_dataframe ''02-03-2024 Compra 111 $10,00$100,00'' =
     Inr [(''02-03-2024'', ''Compra'', ''111'', ''10.00'', ''100.00'')]"
  by code_simp

subsection \<open>Line reconstructor\<close>

lemma split_nl_from_append:
  "split_nl_from p (a @ CHR 0x0A # b) = split_nl_from p a @ split_nl_from [] b"
  by (induction a arbitrary: p) auto

lemma split_nl_from_not_Nil: "split_nl_from p s \<noteq> []"
  by (induction s arbitrary: p) auto

lemma date_line_not_Nil: "date_pattern_match l \<noteq> None \<Longrightarrow> l \<noteq> []"
  by (auto simp: date_pattern_match_def date_pattern_def)

lemma combine_loop_append:
  "combine_loop (l1 @ l2) c cur =
     (case combine_loop l1 c cur of (c', cur') \<Rightarrow> combine_loop l2 c' cur')"
  by (induction l1 arbitrary: c cur) auto

lemma combine_loop_acc:
  "combine_loop ls c cur = (c @ fst (combine_loop ls [] cur), snd (combine_loop ls [] cur))"
proof (induction ls arbitrary: c cur)
  case Nil
  show ?case by simp
next
  case (Cons l ls)
  show ?case
    using Cons.IH [of "c @ [strip cur]" l] Cons.IH [of "[strip cur]" l]
          Cons.IH [of c l] Cons.IH [of c "cur @ '' '' @ l"]
    by simp
qed

lemma combine_loop_current:
  "cur \<noteq> [] \<or> ls \<noteq> [] \<Longrightarrow> snd (combine_loop ls c cur) \<noteq> []"
proof (induction ls arbitrary: c cur)
  case Nil
  then show ?case by simp
next
  case (Cons l ls)
  show ?case
  proof (cases "date_pattern_match l = None")
    case True
    then show ?thesis using Cons.IH [of "cur @ '' '' @ l" c] by simp
  next
    case False
    then have "l \<noteq> []" by (rule date_line_not_Nil)
    then show ?thesis
      using False Cons.IH [of l c] Cons.IH [of l "c @ [strip cur]"] by simp
  qed
qed

lemma flush_acc: "flush (c @ x, y) = c @ flush (x, y)"
  by (simp add: flush_def)

lemma flush_combine_loop_acc:
  "flush (combine_loop ls c cur) = c @ flush (combine_loop ls [] cur)"
  using combine_loop_acc [of ls c cur] flush_acc [of c "fst (combine_loop ls [] cur)" "snd (combine_loop ls [] cur)"]
  by simp

text \<open>
  Claim C5. Line reconstruction is compatible with splitting the text at a line feed that
  is followed by a line matching the date pattern: reconstructing both halves and
  concatenating the results gives the reconstruction of the whole text.
\<close>

theorem combine_broken_lines_split:
  assumes "date_pattern_match (hd (split_nl second)) \<noteq> None"
  shows "combine_broken_lines (first @ [CHR 0x0A] @ second) =
           combine_broken_lines first @ combine_broken_lines second"
proof -
  obtain d ls where L2: "split_nl second = d # ls"
    using split_nl_from_not_Nil [of "[]" second] by (cases "split_nl second") (auto simp: split_nl_def)
  have d: "date_pattern_match d \<noteq> None" using assms L2 by simp
  obtain c' cur' where st: "combine_loop (split_nl first) [] [] = (c', cur')"
    by (cases "combine_loop (split_nl first) [] []")
  have "split_nl first \<noteq> []" by (simp add: split_nl_def split_nl_from_not_Nil)
  then have cur': "cur' \<noteq> []"
    using combine_loop_current [of "[]" "split_nl first" "[]"] st by simp
  have whole: "split_nl (first @ [CHR 0x0A] @ second) = split_nl first @ d # ls"
    using L2 by (simp add: split_nl_def split_nl_from_append)
  have "flush (combine_loop (split_nl first @ d # ls) [] [])
          = flush (combine_loop ls (c' @ [strip cur']) d)"
    using st d cur' by (simp add: combine_loop_append)
  also have "\<dots> = (c' @ [strip cur']) @ flush (combine_loop ls [] d)"
    by (rule flush_combine_loop_acc)
  also have "c' @ [strip cur'] = flush (combine_loop (split_nl first) [] [])"
    using st cur' by (simp add: flush_def)
  also have "flush (combine_loop ls [] d) = flush (combine_loop (d # ls) [] [])"
    using d by simp
  finally show ?thesis
    unfolding combine_broken_lines_def whole L2 .
qed

theorem combine_broken_lines_split_witness:
  "date_pattern_match (hd (split_nl ''02-03-2024 B 2 $3$4'')) \<noteq> None
   \<and> combine_broken_lines (''01-03-2024 A'' @ [CHR 0x0A] @ ''02-03-2024 B 2 $3$4'') =
       combine_broken_lines ''01-03-2024 A'' @ combine_broken_lines ''02-03-2024 B 2 $3$4''"
proof -
  have h: "date_pattern_match (hd (split_nl ''02-03-2024 B 2 $3$4'')) \<noteq> None"
    by code_simp
  show ?thesis
    using h combine_broken_lines_split [OF h, of "''01-03-2024 A''"] by simp
qed

lemma rstrip_Cons:
  "rev (dropWhile P (rev (c # cs))) =
     (if P c \<and> (\<forall>x\<in>set cs. P x) then [] else c # rev (dropWhile P (rev cs)))"
  by (auto simp: dropWhile_append)

lemma match_prefix_rstrip:
  "match_prefix ps s \<Longrightarrow> (\<forall>p\<in>set ps. \<forall>c. p c \<longrightarrow> \<not> Q c) \<Longrightarrow>
   match_prefix ps (rev (dropWhile Q (rev s)))"
proof (induction ps s rule: match_prefix.induct)
  case (1 s)
  show ?case by simp
next
  case (2 p ps)
  then show ?case by simp
next
  case (3 p ps c cs)
  then have "\<not> Q c" by simp
  then show ?case using 3 by (simp only: rstrip_Cons) simp
qed

lemma date_pattern_not_space: "\<forall>p\<in>set date_pattern. \<forall>c. p c \<longrightarrow> \<not> is_space c"
  by (auto simp: date_pattern_def is_digit_def is_space_def)

lemma match_prefix_append: "match_prefix ps s \<Longrightarrow> match_prefix ps (s @ t)"
  by (induction ps s rule: match_prefix.induct) auto

lemma date_strip:
  assumes "date_pattern_match s \<noteq> None"
  shows "date_pattern_match (strip s) \<noteq> None"
proof -
  have m: "match_prefix date_pattern s"
    using assms by (simp add: date_pattern_match_def split: if_splits)
  then obtain c cs where s: "s = c # cs" and c: "is_digit c"
    by (cases s) (auto simp: date_pattern_def)
  have "\<not> is_space c" using c by (rule digit_not_space)
  then have "dropWhile is_space s = s" by (simp add: s)
  then have "strip s = rev (dropWhile is_space (rev s))" by (simp add: strip_def)
  then show ?thesis
    using match_prefix_rstrip [OF m date_pattern_not_space]
    by (simp add: date_pattern_match_def)
qed

lemma date_append:
  "date_pattern_match s \<noteq> None \<Longrightarrow> date_pattern_match (s @ t) \<noteq> None"
  by (auto simp: date_pattern_match_def match_prefix_append split: if_splits)

lemma combine_loop_dates:
  "(\<forall>l\<in>set c. date_pattern_match l \<noteq> None) \<Longrightarrow> date_pattern_match cur \<noteq> None \<Longrightarrow>
   (\<forall>l\<in>set (flush (combine_loop ls c cur)). date_pattern_match l \<noteq> None)"
proof (induction ls arbitrary: c cur)
  case Nil
  then show ?case using date_strip [of cur] by (simp add: flush_def)
next
  case (Cons l ls)
  show ?case
  proof (cases "date_pattern_match l = None")
    case True
    have "date_pattern_match (cur @ '' '' @ l) \<noteq> None"
      using Cons.prems(2) by (rule date_append)
    with Cons.prems(1)
    have "\<forall>x\<in>set (flush (combine_loop ls c (cur @ '' '' @ l))). date_pattern_match x \<noteq> None"
      by (rule Cons.IH)
    then show ?thesis using True by simp
  next
    case False
    have "cur \<noteq> []" using Cons.prems(2) by (rule date_line_not_Nil)
    moreover have "\<forall>x\<in>set (c @ [strip cur]). date_pattern_match x \<noteq> None"
      using Cons.prems date_strip [of cur] by simp
    moreover have "\<forall>x\<in>set (flush (combine_loop ls (c @ [strip cur]) l)). date_pattern_match x \<noteq> None"
      using \<open>\<forall>x\<in>set (c @ [strip cur]). date_pattern_match x \<noteq> None\<close> False
      by (rule Cons.IH)
    ultimately show ?thesis using False by (simp del: not_None_eq)
  qed
qed

lemma combine_loop_tl_dates:
  "cur \<noteq> [] \<Longrightarrow>
   (\<forall>l\<in>set (tl (flush (combine_loop ls [] cur))). date_pattern_match l \<noteq> None)"
proof (induction ls arbitrary: cur)
  case Nil
  then show ?case by (simp add: flush_def)
next
  case (Cons l ls)
  show ?case
  proof (cases "date_pattern_match l = None")
    case True
    then show ?thesis using Cons.IH [of "cur @ '' '' @ l"] by simp
  next
    case False
    have eq: "flush (combine_loop (l # ls) [] cur) = strip cur # flush (combine_loop ls [] l)"
      using False Cons.prems flush_combine_loop_acc [of ls "[strip cur]" l] by simp
    show ?thesis unfolding eq using combine_loop_dates [of "[]" l ls] False by simp
  qed
qed

lemma combine_loop_hd:
  "cur \<noteq> [] \<Longrightarrow>
   hd (flush (combine_loop ls [] cur)) =
     strip (cur @ concat (map (\<lambda>l. CHR '' '' # l)
                          (takeWhile (\<lambda>l. date_pattern_match l = None) ls)))"
proof (induction ls arbitrary: cur)
  case Nil
  then show ?case by (simp add: flush_def)
next
  case (Cons l ls)
  show ?case
  proof (cases "date_pattern_match l = None")
    case True
    then show ?thesis using Cons.IH [of "cur @ '' '' @ l"] by simp
  next
    case False
    have eq: "flush (combine_loop (l # ls) [] cur) = strip cur # flush (combine_loop ls [] l)"
      using False Cons.prems flush_combine_loop_acc [of ls "[strip cur]" l] by simp
    show ?thesis unfolding eq using False by (simp del: not_None_eq)
  qed
qed

text \<open>
  Claim C3, as the code has it. Raw lines before the first line matching the date pattern
  are not discarded: the accumulator starts as the empty string, each of them is appended
  to it after one space, and the result is flushed, trimmed, as the first logical line.
  So the output is never empty, every logical line after the first begins with a date
  token, every logical line does when the first raw line matches the date pattern, and
  otherwise the first logical line is the trimmed concatenation of the raw lines before
  the first date line, each preceded by one space.
\<close>

theorem combine_broken_lines_leading_lines:
  "combine_broken_lines input \<noteq> []
   \<and> (\<forall>l\<in>set (tl (combine_broken_lines input)). date_pattern_match l \<noteq> None)
   \<and> (date_pattern_match (hd (split_nl input)) \<noteq> None \<longrightarrow>
        (\<forall>l\<in>set (combine_broken_lines input). date_pattern_match l \<noteq> None))
   \<and> (date_pattern_match (hd (split_nl input)) = None \<longrightarrow>
        hd (combine_broken_lines input) =
          strip (concat (map (\<lambda>l. CHR '' '' # l)
                   (takeWhile (\<lambda>l. date_pattern_match l = None) (split_nl input)))))"
proof -
  obtain l ls where L: "split_nl input = l # ls"
    using split_nl_from_not_Nil [of "[]" input] by (cases "split_nl input") (auto simp: split_nl_def)
  have ne: "combine_broken_lines input \<noteq> []"
    using combine_loop_current [of "[]" "split_nl input" "[]"] L
    by (cases "combine_loop (split_nl input) [] []") (auto simp: combine_broken_lines_def flush_def)
  show ?thesis
  proof (cases "date_pattern_match l = None")
    case True
    have eq: "combine_broken_lines input = flush (combine_loop ls [] (CHR '' '' # l))"
      using True by (simp add: combine_broken_lines_def L)
    show ?thesis
      using ne True combine_loop_tl_dates [of "CHR '' '' # l" ls]
            combine_loop_hd [of "CHR '' '' # l" ls]
      by (simp add: eq L del: not_None_eq)
  next
    case False
    have eq: "combine_broken_lines input = flush (combine_loop ls [] l)"
      using False by (simp add: combine_broken_lines_def L)
    have all: "\<forall>x\<in>set (combine_broken_lines input). date_pattern_match x \<noteq> None"
      unfolding eq using False by (intro combine_loop_dates) simp_all
    then have "\<forall>x\<in>set (tl (combine_broken_lines input)). date_pattern_match x \<noteq> None"
      by (cases "combine_broken_lines input") simp_all
    then show ?thesis using ne all False by (simp add: L del: not_None_eq)
  qed
qed

theorem combine_broken_lines_leading_lines_witness:
  "date_pattern_match (hd (split_nl (''orphan text'' @ [CHR 0x0A] @ ''02-03-2024 Compra''))) = None
   \<and> hd (combine_broken_lines (''orphan text'' @ [CHR 0x0A] @ ''02-03-2024 Compra'')) =
       strip (concat (map (\<lambda>l. CHR '' '' # l)
         (takeWhile (\<lambda>l. date_pattern_match l = None)
           (split_nl (''orphan text'' @ [CHR 0x0A] @ ''02-03-2024 Compra'')))))
   \<and> tl (combine_broken_lines (''orphan text'' @ [CHR 0x0A] @ ''02-03-2024 Compra'')) =
       [''02-03-2024 Compra'']
   \<and> date_pattern_match ''02-03-2024 Compra'' \<noteq> None"
proof -
  have h: "date_pattern_match (hd (split_nl (''orphan text'' @ [CHR 0x0A] @ ''02-03-2024 Compra''))) = None"
    by code_simp
  have t: "tl (combine_broken_lines (''orphan text'' @ [CHR 0x0A] @ ''02-03-2024 Compra'')) =
       [''02-03-2024 Compra'']"
    by code_simp
  have "\<forall>l\<in>set (tl (combine_broken_lines (''orphan text'' @ [CHR 0x0A] @ ''02-03-2024 Compra''))).
          date_pattern_match l \<noteq> None"
    using combine_broken_lines_leading_lines [of "''orphan text'' @ [CHR 0x0A] @ ''02-03-2024 Compra''"]
    by blast
  then have d: "date_pattern_match ''02-03-2024 Compra'' \<noteq> None"
    unfolding t by simp
  have "hd (combine_broken_lines (''orphan text'' @ [CHR 0x0A] @ ''02-03-2024 Compra'')) =
       strip (concat (map (\<lambda>l. CHR '' '' # l)
         (takeWhile (\<lambda>l. date_pattern_match l = None)
           (split_nl (''orphan text'' @ [CHR 0x0A] @ ''02-03-2024 Compra'')))))"
    using h combine_broken_lines_leading_lines [of "''orphan text'' @ [CHR 0x0A] @ ''02-03-2024 Compra''"]
    by blast
  then show ?thesis using h t d by blast
qed

text \<open>
  Claim C3 as stated fails: on the raw lines \<^verbatim>\<open>"orphan text"\<close> and
  \<^verbatim>\<open>"02-03-2024 Compra 111 $10,00$100,00"\<close> the first logical line is \<^verbatim>\<open>"orphan text"\<close>,
  which does not begin with a date token.
\<close>

theorem combine_broken_lines_orphan_kept:
  "combine_broken_lines (''orphan text'' @ [CHR 0x0A] @ ''02-03-2024 Compra 111 $10,00$100,00'') =
     [''orphan text'', ''02-03-2024 Compra 111 $10,00$100,00'']
   \<and> date_pattern_match ''orphan text'' = None"
  by code_simp

subsection \<open>Field extractor\<close>

lemma money_finditer_from_length:
  "length (money_finditer_from i s) = length (filter (\<lambda>c. c = CHR ''$'') s)"
  by (induction s arbitrary: i) auto

lemma money_finditer_from_first:
  "CHR ''$'' \<notin> set a \<Longrightarrow>
   money_finditer_from i (a @ CHR ''$'' # b) = (i + length a) # money_finditer_from (Suc (i + length a)) b"
  by (induction a arbitrary: i) auto

lemma money_finditer_two:
  "CHR ''$'' \<notin> set a \<Longrightarrow> CHR ''$'' \<notin> set b \<Longrightarrow>
   money_finditer (a @ CHR ''$'' # b @ CHR ''$'' # c) =
     length a # Suc (length a + length b) # money_finditer_from (Suc (Suc (length a + length b))) c"
  by (simp add: money_finditer_def money_finditer_from_first)

lemma filter_not_Nil: "filter P s \<noteq> [] \<Longrightarrow> \<exists>x\<in>set s. P x"
  by (induction s) (auto split: if_splits)

lemma two_markers_split:
  assumes "2 \<le> length (filter (\<lambda>c. c = CHR ''$'') s)"
  shows "\<exists>a b c. s = a @ CHR ''$'' # b @ CHR ''$'' # c \<and> CHR ''$'' \<notin> set a \<and> CHR ''$'' \<notin> set b"
proof -
  have "filter (\<lambda>c. c = CHR ''$'') s \<noteq> []" using assms by auto
  then have "CHR ''$'' \<in> set s" using filter_not_Nil by fastforce
  then obtain a r where s: "s = a @ CHR ''$'' # r" and a: "CHR ''$'' \<notin> set a"
    by (meson split_list_first)
  have fa: "filter (\<lambda>c. c = CHR ''$'') a = []" using a by (auto simp: filter_empty_conv)
  have "filter (\<lambda>c. c = CHR ''$'') r \<noteq> []"
    using assms by (auto simp: s fa)
  then have "CHR ''$'' \<in> set r" using filter_not_Nil by fastforce
  then obtain b c where r: "r = b @ CHR ''$'' # c" and b: "CHR ''$'' \<notin> set b"
    by (meson split_list_first)
  show ?thesis using s r a b by blast
qed

lemma takeWhile_marker: "c \<notin> set x \<Longrightarrow> takeWhile (\<lambda>y. y \<noteq> c) (x @ c # r) = x"
  by (induction x) auto

lemma dropWhile_marker: "c \<notin> set x \<Longrightarrow> dropWhile (\<lambda>y. y \<noteq> c) (x @ c # r) = c # r"
  by (induction x) auto

lemma spans_of_split:
  assumes "CHR ''$'' \<notin> set a" "CHR ''$'' \<notin> set b"
  shows "spec_before_span (a @ CHR ''$'' # b @ CHR ''$'' # c) = a"
    and "spec_value_span (a @ CHR ''$'' # b @ CHR ''$'' # c) = CHR ''$'' # b"
    and "spec_balance_span (a @ CHR ''$'' # b @ CHR ''$'' # c) = CHR ''$'' # c"
  using assms
  by (simp_all add: spec_before_span_def spec_value_span_def spec_balance_span_def
        takeWhile_marker dropWhile_marker)

lemma id_findall_from_Nil_iff:
  "id_findall_from run s = [] \<longleftrightarrow> run = [] \<and> \<not> (\<exists>c\<in>set s. is_digit c)"
  by (induction s arbitrary: run) auto

lemma id_findall_from_runs:
  "r \<in> set (id_findall_from run s) \<Longrightarrow> \<forall>c\<in>set run. is_digit c \<Longrightarrow>
   r \<noteq> [] \<and> (\<forall>c\<in>set r. is_digit c) \<and> (\<exists>a b. run @ s = a @ r @ b)"
proof (induction s arbitrary: run)
  case Nil
  then have "r = run \<and> run \<noteq> []" by (auto split: if_splits)
  moreover have "run @ [] = [] @ run @ []" by simp
  ultimately show ?case using Nil.prems(2) by blast
next
  case (Cons c cs)
  show ?case
  proof (cases "is_digit c")
    case True
    then have "r \<in> set (id_findall_from (run @ [c]) cs)" using Cons.prems(1) by simp
    moreover have "\<forall>x\<in>set (run @ [c]). is_digit x" using True Cons.prems(2) by simp
    ultimately have "r \<noteq> [] \<and> (\<forall>c\<in>set r. is_digit c) \<and> (\<exists>a b. (run @ [c]) @ cs = a @ r @ b)"
      by (rule Cons.IH)
    then show ?thesis by simp
  next
    case False
    have nil: "\<forall>x\<in>set ([]::string). is_digit x" by simp
    show ?thesis
    proof (cases "r \<in> set (id_findall_from [] cs)")
      case True
      from Cons.IH [OF True nil]
      obtain a b where "r \<noteq> []" "\<forall>c\<in>set r. is_digit c" "cs = a @ r @ b" by auto
      then have "run @ c # cs = (run @ c # a) @ r @ b" by simp
      then show ?thesis using \<open>r \<noteq> []\<close> \<open>\<forall>c\<in>set r. is_digit c\<close> by blast
    next
      case notin: False
      then have "r = run \<and> run \<noteq> []"
        using Cons.prems(1) False by (auto split: if_splits)
      moreover have "run @ c # cs = [] @ run @ (c # cs)" by simp
      ultimately show ?thesis using Cons.prems(2) by blast
    qed
  qed
qed

lemma occurrences_mem:
  "i \<in> set (occurrences s sub) \<longleftrightarrow>
     i + length sub \<le> length s \<and> take (length sub) (drop i s) = sub"
  by (auto simp: occurrences_def simp del: upt_Suc)

lemma rfind_found:
  assumes "s = a @ r @ b"
  shows "0 \<le> rfind s r \<and> rfind s r + int (length r) \<le> int (length s)
         \<and> take (length r) (drop (nat (rfind s r)) s) = r"
proof -
  have "length a \<in> set (occurrences s r)"
    unfolding occurrences_mem by (simp add: assms)
  then have ne: "occurrences s r \<noteq> []" by auto
  then have eq: "rfind s r = int (last (occurrences s r))"
    by (cases "rev (occurrences s r)") (auto simp: rfind_def last_rev hd_rev [symmetric] simp del: rev_is_Nil_conv dest: arg_cong [where f = hd])
  have "last (occurrences s r) \<in> set (occurrences s r)" using ne by simp
  then have "last (occurrences s r) + length r \<le> length s
             \<and> take (length r) (drop (last (occurrences s r)) s) = r"
    unfolding occurrences_mem .
  then show ?thesis by (simp add: eq)
qed

lemma py_index_0: "xs \<noteq> [] \<Longrightarrow> py_index xs 0 = Inr (xs ! 0)"
  by (simp add: py_index_def)

lemma py_index_1: "2 \<le> length xs \<Longrightarrow> py_index xs 1 = Inr (xs ! 1)"
  by (simp add: py_index_def)

lemma py_index_last: "xs \<noteq> [] \<Longrightarrow> py_index xs (- 1) = Inr (last xs)"
proof -
  assume "xs \<noteq> []"
  then obtain n where n: "length xs = Suc n" by (cases xs) auto
  have "nat (int (length xs) + - 1) = length xs - 1" by (simp add: n)
  then show ?thesis using \<open>xs \<noteq> []\<close> by (simp add: py_index_def last_conv_nth n)
qed

lemma filter_dropWhile: "(\<forall>c. P c \<longrightarrow> \<not> Q c) \<Longrightarrow> filter P (dropWhile Q s) = filter P s"
  by (induction s) auto

lemma filter_strip: "(\<forall>c. P c \<longrightarrow> \<not> is_space c) \<Longrightarrow> filter P (strip s) = filter P s"
  by (simp add: strip_def rev_filter [symmetric] filter_dropWhile)

lemma takeWhile_dropWhile_commute:
  "(\<forall>c. Q c \<longrightarrow> P c) \<Longrightarrow> takeWhile P (dropWhile Q s) = dropWhile Q (takeWhile P s)"
  by (induction s) auto

lemma takeWhile_rstrip:
  assumes "\<exists>x\<in>set s. \<not> P x" "\<forall>c. Q c \<longrightarrow> P c"
  shows "takeWhile P (rev (dropWhile Q (rev s))) = takeWhile P s"
proof -
  have s: "s = rev (dropWhile Q (rev s)) @ rev (takeWhile Q (rev s))"
    by (metis rev_append rev_rev_ident takeWhile_dropWhile_id)
  have "\<forall>x\<in>set (rev (takeWhile Q (rev s))). P x"
    using assms(2) by (auto dest: set_takeWhileD)
  then have "\<exists>x\<in>set (rev (dropWhile Q (rev s))). \<not> P x"
    using assms(1) s by (metis Un_iff set_append)
  then have "takeWhile P (rev (dropWhile Q (rev s)) @ rev (takeWhile Q (rev s)))
               = takeWhile P (rev (dropWhile Q (rev s)))"
    by (metis takeWhile_append1)
  then show ?thesis using s by simp
qed

lemma takeWhile_strip:
  assumes "CHR ''$'' \<in> set s"
  shows "takeWhile (\<lambda>c. c \<noteq> CHR ''$'') (strip s) =
           dropWhile is_space (takeWhile (\<lambda>c. c \<noteq> CHR ''$'') s)"
proof -
  have q: "\<forall>c. is_space c \<longrightarrow> c \<noteq> CHR ''$''" by (auto simp: is_space_def)
  have "CHR ''$'' \<in> set (dropWhile is_space s)"
    using assms by (simp add: mem_dropWhile dollar_not_space)
  then have "\<exists>x\<in>set (dropWhile is_space s). \<not> x \<noteq> CHR ''$''" by auto
  then have "takeWhile (\<lambda>c. c \<noteq> CHR ''$'') (strip s) =
               takeWhile (\<lambda>c. c \<noteq> CHR ''$'') (dropWhile is_space s)"
    unfolding strip_def using q by (rule takeWhile_rstrip)
  also have "\<dots> = dropWhile is_space (takeWhile (\<lambda>c. c \<noteq> CHR ''$'') s)"
    using q by (rule takeWhile_dropWhile_commute)
  finally show ?thesis .
qed

lemma date_search_Some:
  "date_pattern_search line = Some (d, e) \<Longrightarrow> e = 10 \<and> d = take 10 line \<and> 10 \<le> length line"
proof -
  assume a: "date_pattern_search line = Some (d, e)"
  have len: "\<And>ps s. match_prefix ps s \<Longrightarrow> length ps \<le> length s"
  proof -
    fix ps s show "match_prefix ps s \<Longrightarrow> length ps \<le> length s"
      by (induction ps s rule: match_prefix.induct) auto
  qed
  have m: "match_prefix date_pattern line"
    using a by (simp add: date_pattern_search_def date_pattern_match_def split: if_splits)
  have "length date_pattern = 10" by (simp add: date_pattern_def)
  then show ?thesis
    using a len [OF m] by (auto simp: date_pattern_search_def date_pattern_match_def split: if_splits)
qed

lemma extract_split:
  assumes date: "date_pattern_search line = Some (d, e)"
    and rest: "strip (drop e line) = a @ CHR ''$'' # b @ CHR ''$'' # c"
    and a: "CHR ''$'' \<notin> set a" and b: "CHR ''$'' \<notin> set b"
  shows "extract_fields_from_line line =
    (if id_findall (strip a) = [] then Inr None
     else bind_result (clean_balance (convert_money_to_number (strip (CHR ''$'' # c))))
       (\<lambda>balance. Inr (Some (d,
          strip (py_slice_to (strip a) (rfind (strip a) (last (id_findall (strip a))))),
          last (id_findall (strip a)),
          convert_money_to_number (strip (CHR ''$'' # b)),
          balance))))"
proof -
  let ?rest = "a @ CHR ''$'' # b @ CHR ''$'' # c"
  let ?mm = "money_finditer ?rest"
  have mm: "?mm = length a # Suc (length a + length b)
                   # money_finditer_from (Suc (Suc (length a + length b))) c"
    using a b by (rule money_finditer_two)
  have len: "\<not> length ?mm < 2" by (simp add: mm)
  have i0: "py_index ?mm 0 = Inr (length a)" by (simp add: mm py_index_0)
  have i1: "py_index ?mm 1 = Inr (Suc (length a + length b))"
    by (simp add: mm py_index_1)
  have s0: "take (length a) ?rest = a" by simp
  have s1: "drop (length a) (take (Suc (length a + length b)) ?rest) = CHR ''$'' # b" by simp
  have s2: "drop (Suc (length a + length b)) ?rest = CHR ''$'' # c" by simp
  note unfold = extract_fields_from_line_def date option.case prod.case Let_def
    py_slice_from_nat py_slice_to_nat py_slice_nat rest len if_False i0 i1
    bind_result_def sum.case s0 s1 s2
  show ?thesis
  proof (cases "id_findall (strip a) = []")
    case True
    show ?thesis by (simp only: unfold True if_True simp_thms)
  next
    case False
    have il: "py_index (id_findall (strip a)) (- 1) = Inr (last (id_findall (strip a)))"
      using False by (rule py_index_last)
    show ?thesis by (simp only: unfold False il)
  qed
qed

lemma dollar_filter_strip:
  "filter (\<lambda>c. c = CHR ''$'') (strip s) = filter (\<lambda>c. c = CHR ''$'') s"
  by (rule filter_strip) (simp add: dollar_not_space)

lemma extract_no_date:
  "date_pattern_search line = None \<Longrightarrow> extract_fields_from_line line = Inr None"
  by (simp add: extract_fields_from_line_def)

lemma extract_few_markers:
  assumes "date_pattern_search line = Some (d, e)"
    and "length (filter (\<lambda>c. c = CHR ''$'') (drop e line)) < 2"
  shows "extract_fields_from_line line = Inr None"
proof -
  have "length (money_finditer (strip (drop e line))) < 2"
    using assms(2) by (simp add: money_finditer_def money_finditer_from_length dollar_filter_strip)
  then show ?thesis
    by (simp only: extract_fields_from_line_def assms(1) option.case prod.case Let_def
          py_slice_from_nat if_True)
qed

lemma extract_two_markers:
  assumes date: "date_pattern_search line = Some (d, e)"
    and two: "2 \<le> length (filter (\<lambda>c. c = CHR ''$'') (drop e line))"
  defines "rest \<equiv> strip (drop e line)"
  defines "before \<equiv> strip (spec_before_span rest)"
  shows "extract_fields_from_line line =
    (if id_findall before = [] then Inr None
     else bind_result (clean_balance (convert_money_to_number (strip (spec_balance_span rest))))
       (\<lambda>balance. Inr (Some (d,
          strip (py_slice_to before (rfind before (last (id_findall before)))),
          last (id_findall before),
          convert_money_to_number (strip (spec_value_span rest)),
          balance))))"
proof -
  have "2 \<le> length (filter (\<lambda>c. c = CHR ''$'') rest)"
    using two by (simp add: rest_def dollar_filter_strip)
  then obtain a b c where r: "rest = a @ CHR ''$'' # b @ CHR ''$'' # c"
    and a: "CHR ''$'' \<notin> set a" and b: "CHR ''$'' \<notin> set b"
    using two_markers_split by blast
  have r': "strip (drop e line) = a @ CHR ''$'' # b @ CHR ''$'' # c"
    using r by (simp add: rest_def)
  show ?thesis
    unfolding before_def r spans_of_split [OF a b]
    using date r' a b by (rule extract_split)
qed

lemma before_digits:
  assumes "CHR ''$'' \<in> set s"
  shows "(\<exists>x\<in>set (strip (spec_before_span (strip s))). is_digit x) \<longleftrightarrow>
         (\<exists>x\<in>set (takeWhile (\<lambda>c. c \<noteq> CHR ''$'') s). is_digit x)"
proof -
  have "\<And>x. is_digit x \<Longrightarrow>
          x \<in> set (strip (spec_before_span (strip s))) \<longleftrightarrow>
          x \<in> set (takeWhile (\<lambda>c. c \<noteq> CHR ''$'') s)"
    using assms
    by (simp add: spec_before_span_def takeWhile_strip mem_strip mem_dropWhile digit_not_space)
  then show ?thesis by blast
qed

lemma id_findall_Nil_iff: "id_findall s = [] \<longleftrightarrow> \<not> (\<exists>c\<in>set s. is_digit c)"
  by (simp add: id_findall_def id_findall_from_Nil_iff)

lemma id_findall_last:
  assumes "id_findall s \<noteq> []"
  shows "last (id_findall s) \<noteq> [] \<and> (\<forall>c\<in>set (last (id_findall s)). is_digit c)
         \<and> (\<exists>a b. s = a @ last (id_findall s) @ b)"
proof -
  have "last (id_findall s) \<in> set (id_findall_from [] s)"
    using assms by (simp add: id_findall_def)
  then show ?thesis using id_findall_from_runs [of "last (id_findall s)" "[]" s] by simp
qed

lemma two_markers_mem:
  "2 \<le> length (filter (\<lambda>c. c = CHR ''$'') s) \<Longrightarrow> CHR ''$'' \<in> set s"
  using two_markers_split by fastforce

lemma collect_rows_skip:
  "extract_fields_from_line line = Inr None \<Longrightarrow>
   collect_rows (xs @ line # ys) data = collect_rows (xs @ ys) data"
  by (induction xs arbitrary: data) (auto simp: bind_result_def split: sum.splits option.splits)

text \<open>
  Claim C1. \<^verbatim>\<open>extract_fields_from_line\<close> returns \<^verbatim>\<open>None\<close> exactly when the line has no
  leading date token, or fewer than two \<^verbatim>\<open>$\<close> occur after the date match, or no digit
  occurs between the date match and the first \<^verbatim>\<open>$\<close>. In every other case it returns the
  five fields, the first being the date token and the third a non-empty run of digits
  (description, value and balance may be empty strings). A line on which it returns
  \<^verbatim>\<open>None\<close> adds nothing to the table: the rows are those of the input without that line.
\<close>

theorem extract_fields_no_match_iff:
  "(extract_fields_from_line line = Inr None \<longleftrightarrow>
      (date_pattern_search line = None
       \<or> length (filter (\<lambda>c. c = CHR ''$'') (drop 10 line)) < 2
       \<or> \<not> (\<exists>c\<in>set (takeWhile (\<lambda>c. c \<noteq> CHR ''$'') (drop 10 line)). is_digit c)))
   \<and> (extract_fields_from_line line \<noteq> Inr None \<longrightarrow>
        (\<exists>description operation_id v balance.
           extract_fields_from_line line =
             Inr (Some (take 10 line, description, operation_id, v, balance))
           \<and> operation_id \<noteq> [] \<and> (\<forall>c\<in>set operation_id. is_digit c)))
   \<and> (extract_fields_from_line line = Inr None \<longrightarrow>
        collect_rows (xs @ line # ys) data = collect_rows (xs @ ys) data)"
proof (cases "date_pattern_search line")
  case None
  then show ?thesis using extract_no_date [OF None] collect_rows_skip by simp
next
  case (Some m)
  obtain d e where m: "m = (d, e)" by (cases m)
  have date: "date_pattern_search line = Some (d, e)" using Some m by simp
  have e: "e = 10" and d: "d = take 10 line" using date_search_Some [OF date] by simp_all
  show ?thesis
  proof (cases "length (filter (\<lambda>c. c = CHR ''$'') (drop 10 line)) < 2")
    case True
    then have "extract_fields_from_line line = Inr None"
      using extract_few_markers [OF date] e by simp
    then show ?thesis using True collect_rows_skip by simp
  next
    case False
    then have two: "2 \<le> length (filter (\<lambda>c. c = CHR ''$'') (drop e line))"
      using e by simp
    let ?before = "strip (spec_before_span (strip (drop e line)))"
    have dig: "id_findall ?before = [] \<longleftrightarrow>
                 \<not> (\<exists>c\<in>set (takeWhile (\<lambda>c. c \<noteq> CHR ''$'') (drop 10 line)). is_digit c)"
      using before_digits [OF two_markers_mem [OF two]] e by (simp add: id_findall_Nil_iff)
    show ?thesis
    proof (cases "id_findall ?before = []")
      case True
      then have "extract_fields_from_line line = Inr None"
        using extract_two_markers [OF date two] by simp
      then show ?thesis using True dig collect_rows_skip by simp
    next
      case nonempty: False
      have ex: "extract_fields_from_line line =
         Inr (Some (take 10 line,
            strip (py_slice_to ?before (rfind ?before (last (id_findall ?before)))),
            last (id_findall ?before),
            convert_money_to_number (strip (spec_value_span (strip (drop e line)))),
            (let v = convert_money_to_number (strip (spec_balance_span (strip (drop e line))))
             in if CHR ''.'' \<in> set v
                then take (length (takeWhile (\<lambda>x. x \<noteq> CHR ''.'') v) + 3) v else v)))"
        using extract_two_markers [OF date two] nonempty
        by (simp add: clean_balance_eq bind_result_def d Let_def)
      have ne: "extract_fields_from_line line \<noteq> Inr None" using ex by simp
      have "\<not> (date_pattern_search line = None
       \<or> length (filter (\<lambda>c. c = CHR ''$'') (drop 10 line)) < 2
       \<or> \<not> (\<exists>c\<in>set (takeWhile (\<lambda>c. c \<noteq> CHR ''$'') (drop 10 line)). is_digit c))"
        using date False dig nonempty by simp
      moreover have "\<exists>description operation_id v balance.
           extract_fields_from_line line =
             Inr (Some (take 10 line, description, operation_id, v, balance))
           \<and> operation_id \<noteq> [] \<and> (\<forall>c\<in>set operation_id. is_digit c)"
        using ex id_findall_last [OF nonempty] by blast
      ultimately show ?thesis using ne by blast
    qed
  qed
qed

theorem extract_fields_no_match_iff_witness:
  "date_pattern_search ''orphan text'' = None
   \<and> extract_fields_from_line ''orphan text'' = Inr None
   \<and> collect_rows ([] @ ''orphan text'' # [''02-03-2024 Compra 111 $10,00$100,00'']) [] =
       collect_rows ([] @ [''02-03-2024 Compra 111 $10,00$100,00'']) []
   \<and> extract_fields_from_line ''02-03-2024 Compra 111 $10,00$100,00'' \<noteq> Inr None
   \<and> (\<exists>description operation_id v balance.
         extract_fields_from_line ''02-03-2024 Compra 111 $10,00$100,00'' =
           Inr (Some (take 10 ''02-03-2024 Compra 111 $10,00$100,00'',
                      description, operation_id, v, balance)))"
proof -
  have h: "date_pattern_search ''orphan text'' = None" by code_simp
  have n: "extract_fields_from_line ''orphan text'' = Inr None"
    using h extract_fields_no_match_iff [of "''orphan text''"] by blast
  have c: "collect_rows ([] @ ''orphan text'' # [''02-03-2024 Compra 111 $10,00$100,00'']) [] =
       collect_rows ([] @ [''02-03-2024 Compra 111 $10,00$100,00'']) []"
    using n extract_fields_no_match_iff
      [of "''orphan text''" "[]" "[''02-03-2024 Compra 111 $10,00$100,00'']" "[]"]
    by blast
  have m: "extract_fields_from_line ''02-03-2024 Compra 111 $10,00$100,00'' \<noteq> Inr None"
    by code_simp
  have "\<exists>description operation_id v balance.
         extract_fields_from_line ''02-03-2024 Compra 111 $10,00$100,00'' =
           Inr (Some (take 10 ''02-03-2024 Compra 111 $10,00$100,00'',
                      description, operation_id, v, balance))"
    using m extract_fields_no_match_iff [of "''02-03-2024 Compra 111 $10,00$100,00''"]
    by blast
  then show ?thesis using h n c m by blast
qed

lemma dropWhile_take_clamp:
  "dropWhile P (take (length (takeWhile P s) + k) s) = take k (dropWhile P s)"
  by (induction s) (auto simp: take_Cons split: nat.splits)

lemma clean_balance_clamped:
  assumes "clean_balance s = Inr t"
  shows "length (drop 1 (dropWhile (\<lambda>c. c \<noteq> CHR ''.'') t)) \<le> 2"
proof (cases "CHR ''.'' \<in> set s")
  case True
  then have "t = take (length (takeWhile (\<lambda>c. c \<noteq> CHR ''.'') s) + 3) s"
    using assms by (simp add: clean_balance_eq)
  then show ?thesis by (simp add: dropWhile_take_clamp)
next
  case False
  then have "t = s" using assms by (simp add: clean_balance_eq)
  then have "dropWhile (\<lambda>c. c \<noteq> CHR ''.'') t = []" using False by auto
  then show ?thesis by (simp only: drop_Nil list.size)
qed

lemma extract_total: "\<exists>r. extract_fields_from_line line = Inr r"
proof (cases "date_pattern_search line")
  case None
  then show ?thesis by (simp add: extract_no_date)
next
  case (Some m)
  obtain d e where date: "date_pattern_search line = Some (d, e)" using Some by (cases m) simp
  show ?thesis
  proof (cases "length (filter (\<lambda>c. c = CHR ''$'') (drop e line)) < 2")
    case True
    then show ?thesis using extract_few_markers [OF date] by simp
  next
    case False
    then have two: "2 \<le> length (filter (\<lambda>c. c = CHR ''$'') (drop e line))" by simp
    show ?thesis
      unfolding extract_two_markers [OF date two]
      by (simp add: clean_balance_eq bind_result_def)
  qed
qed

lemma extract_Some_D:
  assumes ex: "extract_fields_from_line line = Inr (Some (d, desc, i, v, bal))"
  shows "date_pattern_search line = Some (d, 10)"
    and "2 \<le> length (filter (\<lambda>c. c = CHR ''$'') (drop 10 line))"
    and "id_findall (strip (spec_before_span (strip (drop 10 line)))) \<noteq> []"
    and "i = last (id_findall (strip (spec_before_span (strip (drop 10 line)))))"
    and "v = convert_money_to_number (strip (spec_value_span (strip (drop 10 line))))"
    and "clean_balance (convert_money_to_number (strip (spec_balance_span (strip (drop 10 line)))))
           = Inr bal"
proof -
  obtain d' e where date: "date_pattern_search line = Some (d', e)"
    using ex extract_no_date [of line] by (cases "date_pattern_search line") auto
  have e: "e = 10" using date_search_Some [OF date] by simp
  have two: "2 \<le> length (filter (\<lambda>c. c = CHR ''$'') (drop e line))"
    using ex extract_few_markers [OF date] by (cases "length (filter (\<lambda>c. c = CHR ''$'') (drop e line)) < 2") auto
  note eq = extract_two_markers [OF date two]
  have ne: "id_findall (strip (spec_before_span (strip (drop e line)))) \<noteq> []"
    using ex eq by (auto split: if_splits)
  obtain t where t: "clean_balance (convert_money_to_number (strip (spec_balance_span (strip (drop e line))))) = Inr t"
    by (simp add: clean_balance_eq)
  have rhs: "extract_fields_from_line line =
     Inr (Some (d', strip (py_slice_to (strip (spec_before_span (strip (drop e line))))
                       (rfind (strip (spec_before_span (strip (drop e line))))
                         (last (id_findall (strip (spec_before_span (strip (drop e line)))))))),
          last (id_findall (strip (spec_before_span (strip (drop e line))))),
          convert_money_to_number (strip (spec_value_span (strip (drop e line)))),
          t))"
    using eq ne t by (simp add: bind_result_def)
  have all: "d = d' \<and> i = last (id_findall (strip (spec_before_span (strip (drop e line)))))
     \<and> v = convert_money_to_number (strip (spec_value_span (strip (drop e line)))) \<and> bal = t"
    using ex [symmetric] unfolding rhs by simp
  show "date_pattern_search line = Some (d, 10)" using all date e by simp
  show "2 \<le> length (filter (\<lambda>c. c = CHR ''$'') (drop 10 line))" using two e by simp
  show "id_findall (strip (spec_before_span (strip (drop 10 line)))) \<noteq> []" using ne e by simp
  show "i = last (id_findall (strip (spec_before_span (strip (drop 10 line)))))" using all e by simp
  show "v = convert_money_to_number (strip (spec_value_span (strip (drop 10 line))))" using all e by simp
  show "clean_balance (convert_money_to_number (strip (spec_balance_span (strip (drop 10 line))))) = Inr bal"
    using all t e by simp
qed

text \<open>
  Claim C7. In every record that \<^verbatim>\<open>extract_fields_from_line\<close> returns, the balance is the
  result of \<^verbatim>\<open>clean_balance\<close> on the normalized balance span and has at most two characters
  after its first \<^verbatim>\<open>.\<close>, while the value is the normalized value span itself, not clamped.
  On \<^verbatim>\<open>"01-03-2024 x 1 $100,456$100,456"\<close> the value is \<^verbatim>\<open>"100.456"\<close> and the balance
  \<^verbatim>\<open>"100.45"\<close>.
\<close>

theorem balance_clamped_value_unclamped:
  assumes "extract_fields_from_line line = Inr (Some (d, desc, i, v, bal))"
  shows "length (drop 1 (dropWhile (\<lambda>c. c \<noteq> CHR ''.'') bal)) \<le> 2
    \<and> v = convert_money_to_number (strip (spec_value_span (strip (drop 10 line))))
    \<and> clean_balance (convert_money_to_number (strip (spec_balance_span (strip (drop 10 line)))))
         = Inr bal
    \<and> extract_fields_from_line ''01-03-2024 x 1 $100,456$100,456'' =
         Inr (Some (''01-03-2024'', ''x'', ''1'', ''100.456'', ''100.45''))
    \<and> convert_money_to_number ''$100,456'' = ''100.456''
    \<and> clean_balance ''100.456'' = Inr ''100.45''"
proof -
  note D = extract_Some_D [OF assms]
  have "length (drop 1 (dropWhile (\<lambda>c. c \<noteq> CHR ''.'') bal)) \<le> 2"
    using D(6) by (rule clean_balance_clamped)
  moreover have "extract_fields_from_line ''01-03-2024 x 1 $100,456$100,456'' =
         Inr (Some (''01-03-2024'', ''x'', ''1'', ''100.456'', ''100.45''))"
    by code_simp
  moreover have "convert_money_to_number ''$100,456'' = ''100.456''" by code_simp
  moreover have "clean_balance ''100.456'' = Inr ''100.45''" by code_simp
  ultimately show ?thesis using D(5) D(6) by blast
qed

theorem balance_clamped_value_unclamped_witness:
  "extract_fields_from_line ''01-03-2024 x 1 $100,456$100,456'' =
     Inr (Some (''01-03-2024'', ''x'', ''1'', ''100.456'', ''100.45''))
   \<and> length (drop 1 (dropWhile (\<lambda>c. c \<noteq> CHR ''.'') ''100.45'')) \<le> 2
   \<and> ''100.456'' = convert_money_to_number
        (strip (spec_value_span (strip (drop 10 ''01-03-2024 x 1 $100,456$100,456''))))"
proof -
  have h: "extract_fields_from_line ''01-03-2024 x 1 $100,456$100,456'' =
     Inr (Some (''01-03-2024'', ''x'', ''1'', ''100.456'', ''100.45''))"
    by code_simp
  show ?thesis
    using h balance_clamped_value_unclamped [OF h] by blast
qed

lemma money_matches_bounds:
  assumes "2 \<le> length (money_finditer s)"
  shows "py_index (money_finditer s) 0 = Inr (money_finditer s ! 0)"
    and "py_index (money_finditer s) 1 = Inr (money_finditer s ! 1)"
    and "money_finditer s ! 0 < money_finditer s ! 1"
    and "money_finditer s ! 1 < length s"
    and "take (money_finditer s ! 0) s = spec_before_span s"
    and "drop (money_finditer s ! 0) (take (money_finditer s ! 1) s) = spec_value_span s"
    and "drop (money_finditer s ! 1) s = spec_balance_span s"
proof -
  have "2 \<le> length (filter (\<lambda>c. c = CHR ''$'') s)"
    using assms by (simp add: money_finditer_def money_finditer_from_length)
  then obtain a b c where s: "s = a @ CHR ''$'' # b @ CHR ''$'' # c"
    and a: "CHR ''$'' \<notin> set a" and b: "CHR ''$'' \<notin> set b"
    using two_markers_split by blast
  note mm = money_finditer_two [OF a b, of c]
  show "py_index (money_finditer s) 0 = Inr (money_finditer s ! 0)"
    unfolding s mm by (simp add: py_index_0)
  show "py_index (money_finditer s) 1 = Inr (money_finditer s ! 1)"
    unfolding s mm by (simp add: py_index_1)
  show "money_finditer s ! 0 < money_finditer s ! 1" unfolding s mm by simp
  show "money_finditer s ! 1 < length s" unfolding s mm by simp
  show "take (money_finditer s ! 0) s = spec_before_span s"
    unfolding s mm spans_of_split [OF a b] by simp
  show "drop (money_finditer s ! 0) (take (money_finditer s ! 1) s) = spec_value_span s"
    unfolding s mm spans_of_split [OF a b] by simp
  show "drop (money_finditer s ! 1) s = spec_balance_span s"
    unfolding s mm spans_of_split [OF a b] by simp
qed

lemma id_matches_bounds:
  assumes "id_findall s \<noteq> []"
  shows "py_index (id_findall s) (- 1) = Inr (last (id_findall s))"
    and "0 \<le> rfind s (last (id_findall s))"
    and "rfind s (last (id_findall s)) + int (length (last (id_findall s))) \<le> int (length s)"
proof -
  show "py_index (id_findall s) (- 1) = Inr (last (id_findall s))"
    using assms by (rule py_index_last)
  obtain a b where "s = a @ last (id_findall s) @ b"
    using id_findall_last [OF assms] by blast
  then have "0 \<le> rfind s (last (id_findall s)) \<and>
    rfind s (last (id_findall s)) + int (length (last (id_findall s))) \<le> int (length s)
    \<and> take (length (last (id_findall s))) (drop (nat (rfind s (last (id_findall s)))) s) = last (id_findall s)"
    by (rule rfind_found)
  then show "0 \<le> rfind s (last (id_findall s))"
    and "rfind s (last (id_findall s)) + int (length (last (id_findall s))) \<le> int (length s)"
    by simp_all
qed

text \<open>
  Claim C9. \<^verbatim>\<open>extract_fields_from_line\<close> never raises: on every string it returns
  \<^verbatim>\<open>None\<close> or the five fields. Every index it computes is in range: the end of the date
  match lies within the line; when there are two currency matches, \<^verbatim>\<open>money_matches[0]\<close>
  and \<^verbatim>\<open>money_matches[1]\<close> exist and their starts are increasing positions of the
  remainder; when there is a digit run, \<^verbatim>\<open>id_matches[-1]\<close> exists and
  \<^verbatim>\<open>before_money.rfind(operation_id)\<close> finds it, so the result is not \<^verbatim>\<open>-1\<close> and the
  occurrence ends within \<^verbatim>\<open>before_money\<close>.
\<close>

theorem extract_fields_total:
  "(\<exists>r. extract_fields_from_line line = Inr r)
   \<and> (\<forall>d e. date_pattern_search line = Some (d, e) \<longrightarrow>
        e \<le> length line
        \<and> (let rest_of_line = strip (py_slice_from line (int e));
               money_matches = money_finditer rest_of_line
           in 2 \<le> length money_matches \<longrightarrow>
              py_index money_matches 0 = Inr (money_matches ! 0)
              \<and> py_index money_matches 1 = Inr (money_matches ! 1)
              \<and> money_matches ! 0 < money_matches ! 1
              \<and> money_matches ! 1 < length rest_of_line
              \<and> (let before_money = strip (py_slice_to rest_of_line (int (money_matches ! 0)));
                     id_matches = id_findall before_money
                 in id_matches \<noteq> [] \<longrightarrow>
                    py_index id_matches (- 1) = Inr (last id_matches)
                    \<and> 0 \<le> rfind before_money (last id_matches)
                    \<and> rfind before_money (last id_matches) + int (length (last id_matches))
                        \<le> int (length before_money))))"
proof -
  have "e \<le> length line" if "date_pattern_search line = Some (d, e)" for d e
    using date_search_Some [OF that] by simp
  then show ?thesis
    using extract_total [of line]
    by (simp only: Let_def) (blast intro: money_matches_bounds id_matches_bounds)
qed

theorem extract_fields_total_witness:
  "date_pattern_search ''01-03-2024 12 a 12 $1$2'' = Some (''01-03-2024'', 10)
   \<and> 10 \<le> length ''01-03-2024 12 a 12 $1$2''
   \<and> extract_fields_from_line ''01-03-2024 12 a 12 $1$2'' =
       Inr (Some (''01-03-2024'', ''12 a'', ''12'', ''1'', ''2''))
   \<and> rfind ''12 a 12'' ''12'' = 5"
proof -
  have d: "date_pattern_search ''01-03-2024 12 a 12 $1$2'' = Some (''01-03-2024'', 10)"
    by code_simp
  have b: "10 \<le> length ''01-03-2024 12 a 12 $1$2''"
    using extract_fields_total [of "''01-03-2024 12 a 12 $1$2''", THEN conjunct2, rule_format,
            OF d, THEN conjunct1] .
  have x: "extract_fields_from_line ''01-03-2024 12 a 12 $1$2'' =
       Inr (Some (''01-03-2024'', ''12 a'', ''12'', ''1'', ''2''))"
    by code_simp
  have r: "rfind ''12 a 12'' ''12'' = 5" by code_simp
  show ?thesis using d b x r by blast
qed

lemma balance_span_markers:
  assumes "2 \<le> length (filter (\<lambda>c. c = CHR ''$'') s)"
  shows "length (filter (\<lambda>c. c = CHR ''$'') (spec_balance_span s)) =
           length (filter (\<lambda>c. c = CHR ''$'') s) - 1"
proof -
  obtain a b c where s: "s = a @ CHR ''$'' # b @ CHR ''$'' # c"
    and a: "CHR ''$'' \<notin> set a" and b: "CHR ''$'' \<notin> set b"
    using two_markers_split [OF assms] by blast
  have fa: "filter (\<lambda>c. c = CHR ''$'') a = []" using a by (auto simp: filter_empty_conv)
  have fb: "filter (\<lambda>c. c = CHR ''$'') b = []" using b by (auto simp: filter_empty_conv)
  show ?thesis unfolding s spans_of_split [OF a b] by (simp add: fa fb)
qed

text \<open>
  Claim C10. A line with a leading date, a digit between the date and the first \<^verbatim>\<open>$\<close>,
  and three or more \<^verbatim>\<open>$\<close> after the date still gives exactly one record. The value is
  the normalized text from the first marker up to the second, the balance the clamped
  normalized text from the second marker to the end of the remainder; the spans are cut
  at the starts of the first two matches only, and the balance span holds every marker
  but the first.
\<close>

theorem extract_fields_extra_markers:
  assumes date: "date_pattern_search line = Some (d, e)"
    and three: "3 \<le> length (filter (\<lambda>c. c = CHR ''$'') (drop e line))"
    and digit: "\<exists>x\<in>set (takeWhile (\<lambda>c. c \<noteq> CHR ''$'') (drop e line)). is_digit x"
  defines "rest \<equiv> strip (drop e line)"
  shows "\<exists>description operation_id balance.
     extract_fields_from_line line =
       Inr (Some (d, description, operation_id,
                  convert_money_to_number (strip (spec_value_span rest)), balance))
     \<and> clean_balance (convert_money_to_number (strip (spec_balance_span rest))) = Inr balance
     \<and> spec_value_span rest = drop (money_finditer rest ! 0) (take (money_finditer rest ! 1) rest)
     \<and> spec_balance_span rest = drop (money_finditer rest ! 1) rest
     \<and> length (filter (\<lambda>c. c = CHR ''$'') (spec_balance_span rest)) =
         length (filter (\<lambda>c. c = CHR ''$'') (drop e line)) - 1
     \<and> collect_rows [line] [] =
         Inr [(d, description, operation_id,
               convert_money_to_number (strip (spec_value_span rest)), balance)]"
proof -
  have two: "2 \<le> length (filter (\<lambda>c. c = CHR ''$'') (drop e line))" using three by simp
  have two': "2 \<le> length (filter (\<lambda>c. c = CHR ''$'') rest)"
    using two by (simp add: rest_def dollar_filter_strip)
  have mm: "2 \<le> length (money_finditer rest)"
    using two' by (simp add: money_finditer_def money_finditer_from_length)
  let ?before = "strip (spec_before_span rest)"
  have ne: "id_findall ?before \<noteq> []"
    using digit before_digits [OF two_markers_mem [OF two]]
    by (simp add: id_findall_Nil_iff rest_def)
  obtain t where t: "clean_balance (convert_money_to_number (strip (spec_balance_span rest))) = Inr t"
    by (simp add: clean_balance_eq)
  have ex: "extract_fields_from_line line =
     Inr (Some (d, strip (py_slice_to ?before (rfind ?before (last (id_findall ?before)))),
                last (id_findall ?before),
                convert_money_to_number (strip (spec_value_span rest)), t))"
    using extract_two_markers [OF date two] ne t by (simp add: rest_def bind_result_def)
  have rows: "collect_rows [line] [] =
     Inr [(d, strip (py_slice_to ?before (rfind ?before (last (id_findall ?before)))),
           last (id_findall ?before),
           convert_money_to_number (strip (spec_value_span rest)), t)]"
    by (simp add: ex bind_result_def)
  have cnt: "length (filter (\<lambda>c. c = CHR ''$'') (spec_balance_span rest)) =
         length (filter (\<lambda>c. c = CHR ''$'') (drop e line)) - 1"
    using balance_span_markers [OF two'] by (simp add: rest_def dollar_filter_strip)
  show ?thesis
    using ex t rows cnt money_matches_bounds(6) [OF mm, symmetric]
      money_matches_bounds(7) [OF mm, symmetric]
    by blast
qed

theorem extract_fields_extra_markers_witness:
  "date_pattern_search ''01-03-2024 A 7 $1,00$2,00 $3 zz'' = Some (''01-03-2024'', 10)
   \<and> 3 \<le> length (filter (\<lambda>c. c = CHR ''$'') (drop 10 ''01-03-2024 A 7 $1,00$2,00 $3 zz''))
   \<and> (\<exists>description operation_id balance.
        extract_fields_from_line ''01-03-2024 A 7 $1,00$2,00 $3 zz'' =
          Inr (Some (''01-03-2024'', description, operation_id,
                convert_money_to_number
                  (strip (spec_value_span (strip (drop 10 ''01-03-2024 A 7 $1,00$2,00 $3 zz'')))),
                balance)))
   \<and> extract_fields_from_line ''01-03-2024 A 7 $1,00$2,00 $3 zz'' =
       Inr (Some (''01-03-2024'', ''A'', ''7'', ''1.00'', ''2.00''))
   \<and> spec_balance_span (strip (drop 10 ''01-03-2024 A 7 $1,00$2,00 $3 zz'')) = ''$2,00 $3 zz''"
proof -
  have d: "date_pattern_search ''01-03-2024 A 7 $1,00$2,00 $3 zz'' = Some (''01-03-2024'', 10)"
    by code_simp
  have t: "3 \<le> length (filter (\<lambda>c. c = CHR ''$'') (drop 10 ''01-03-2024 A 7 $1,00$2,00 $3 zz''))"
    by code_simp
  have g: "\<exists>x\<in>set (takeWhile (\<lambda>c. c \<noteq> CHR ''$'') (drop 10 ''01-03-2024 A 7 $1,00$2,00 $3 zz'')).
             is_digit x"
    by code_simp
  have x: "extract_fields_from_line ''01-03-2024 A 7 $1,00$2,00 $3 zz'' =
       Inr (Some (''01-03-2024'', ''A'', ''7'', ''1.00'', ''2.00''))"
    by code_simp
  have s: "spec_balance_span (strip (drop 10 ''01-03-2024 A 7 $1,00$2,00 $3 zz'')) = ''$2,00 $3 zz''"
    by code_simp
  have "\<exists>description operation_id balance.
        extract_fields_from_line ''01-03-2024 A 7 $1,00$2,00 $3 zz'' =
          Inr (Some (''01-03-2024'', description, operation_id,
                convert_money_to_number
                  (strip (spec_value_span (strip (drop 10 ''01-03-2024 A 7 $1,00$2,00 $3 zz'')))),
                balance))"
    using extract_fields_extra_markers [OF d t g] by blast
  then show ?thesis using d t x s by blast
qed

end
